theory Spec2Isabelle
  imports Main
begin

section \<open>Thread names (threadnames.cpp)\<close>

text \<open>
  The file is compiled under preprocessor switches. Each switch that the source tests is
  a field of \<open>build\<close>; \<open>BSD\<close> stands for
  \<^verbatim>\<open>defined(__FreeBSD__) || defined(__OpenBSD__) || defined(__DragonFly__)\<close>,
  and \<open>MAC_OSX_trailing\<close> for the macro \<^verbatim>\<open>MAC_OSX_\<close> that
  guards the read on macOS (its name ends in an underscore: it is not \<^verbatim>\<open>MAC_OSX\<close>).
\<close>

record build =
  PR_SET_NAME :: bool
  BSD :: bool
  MAC_OSX :: bool
  PR_GET_NAME :: bool
  MAC_OSX_trailing :: bool
  HAVE_THREAD_LOCAL :: bool

text \<open>
  The system calls are not code of this file: they are parameters. A set call maps the
  thread's current process-level name and the requested name to the name the system keeps
  (a call that fails keeps the current one). A get call yields the bytes it stores in
  front of the terminator, or \<open>None\<close> when it fails and stores nothing.
\<close>

record kernel =
  prctl_set_name :: "string \<Rightarrow> string \<Rightarrow> string"
  pthread_set_name_np :: "string \<Rightarrow> string \<Rightarrow> string"
  pthread_setname_np :: "string \<Rightarrow> string \<Rightarrow> string"
  prctl_get_name :: "string \<Rightarrow> string option"
  pthread_getname_np :: "string \<Rightarrow> nat \<Rightarrow> string option"

type_synonym tid = nat

text \<open>
  The state the naming functions touch: the process-level name the system keeps for each
  thread, and \<^verbatim>\<open>static thread_local std::string g_thread_name\<close>, one
  instance per thread, hence a function of the thread. Every function below takes the
  calling thread as an argument.
\<close>

record names =
  os_name :: "tid \<Rightarrow> string"
  g_thread_name :: "tid \<Rightarrow> string"

definition NUL :: char where
  "NUL = CHR 0x00"

text \<open>
  A \<^verbatim>\<open>const char*\<close> argument is modelled by the bytes it points to;
  the C string it denotes, and the \<^verbatim>\<open>std::string\<close> built from it,
  are the bytes in front of the first terminator.
\<close>

definition c_str :: "string \<Rightarrow> string" where
  "c_str p = takeWhile (\<lambda>c. c \<noteq> NUL) p"

definition SetThreadName :: "build \<Rightarrow> kernel \<Rightarrow> tid \<Rightarrow> string \<Rightarrow> names \<Rightarrow> names" where
  "SetThreadName b k t name s =
     (if PR_SET_NAME b then
        s\<lparr>os_name := (os_name s)(t := prctl_set_name k (os_name s t) (c_str name))\<rparr>
      else if BSD b then
        s\<lparr>os_name := (os_name s)(t := pthread_set_name_np k (os_name s t) (c_str name))\<rparr>
      else if MAC_OSX b then
        s\<lparr>os_name := (os_name s)(t := pthread_setname_np k (os_name s t) (c_str name))\<rparr>
      else s)"

text \<open>
  \<^verbatim>\<open>char name[16]\<close> is not initialised: its sixteen bytes are whatever
  the stack held, the parameter \<open>stack\<close>. A get call that succeeds stores at
  most fifteen bytes and a terminator at the front of the array.
  \<^verbatim>\<open>std::string(name)\<close> reads up to the first terminator; with none
  among the sixteen bytes it reads past the array, which is the error \<open>Overrun\<close>.
\<close>

datatype read_error = Overrun

definition store_name :: "string \<Rightarrow> string \<Rightarrow> string" where
  "store_name buf n = (let w = take 15 (c_str n) @ [NUL] in w @ drop (length w) buf)"

definition string_of_buffer :: "string \<Rightarrow> read_error + string" where
  "string_of_buffer buf = (if NUL \<in> set buf then Inr (c_str buf) else Inl Overrun)"

definition GetThreadName :: "build \<Rightarrow> kernel \<Rightarrow> string \<Rightarrow> tid \<Rightarrow> names \<Rightarrow> read_error + string" where
  "GetThreadName b k stack t s =
     string_of_buffer
       (if PR_GET_NAME b then
          (case prctl_get_name k (os_name s t) of Some n \<Rightarrow> store_name stack n | None \<Rightarrow> stack)
        else if MAC_OSX_trailing b then
          (case pthread_getname_np k (os_name s t) 16 of Some n \<Rightarrow> store_name stack n | None \<Rightarrow> stack)
        else stack)"

definition empty_string :: string where
  "empty_string = []"

definition ThreadGetInternalName :: "build \<Rightarrow> tid \<Rightarrow> names \<Rightarrow> string" where
  "ThreadGetInternalName b t s = (if HAVE_THREAD_LOCAL b then g_thread_name s t else empty_string)"

definition SetInternalName :: "build \<Rightarrow> tid \<Rightarrow> string \<Rightarrow> names \<Rightarrow> names" where
  "SetInternalName b t name s =
     (if HAVE_THREAD_LOCAL b then s\<lparr>g_thread_name := (g_thread_name s)(t := name)\<rparr> else s)"

definition ThreadRename :: "build \<Rightarrow> kernel \<Rightarrow> tid \<Rightarrow> string \<Rightarrow> names \<Rightarrow> names" where
  "ThreadRename b k t name s = SetInternalName b t (c_str name) (SetThreadName b k t name s)"

definition ThreadSetInternalName :: "build \<Rightarrow> tid \<Rightarrow> string \<Rightarrow> names \<Rightarrow> names" where
  "ThreadSetInternalName b t name s = SetInternalName b t (c_str name) s"

section \<open>Renaming the workers of a thread pool\<close>

text \<open>
  Modelled from the spec: \<^verbatim>\<open>strprintf("%s-%d", baseName, i)\<close> (tinyformat, not
  among the sources) renders \<^verbatim>\<open>"{baseName}-{slotIndex}"\<close>, the index in decimal.
\<close>

fun dec :: "nat \<Rightarrow> string" where
  "dec n = (if n < 10 then [''0123456789'' ! n] else dec (n div 10) @ [''0123456789'' ! (n mod 10)])"

declare dec.simps [simp del]

definition strprintf_s_d :: "string \<Rightarrow> nat \<Rightarrow> string" where
  "strprintf_s_d baseName i = c_str baseName @ ''-'' @ dec i"

text \<open>
  The counters of \<^verbatim>\<open>RenameThreadPool\<close> are C ints that start at 0 and only
  count up: the index \<open>i\<close>, which stays below \<^verbatim>\<open>tp.size()\<close>, and
  \<^verbatim>\<open>doneCnt\<close>, which each task increments once. They are natural numbers
  here, as are the sizes they are compared with, so that no conversion in a comparison
  changes a value.

  The task that is pushed for slot \<open>i\<close>, up to its
  \<^verbatim>\<open>cond->wait(l)\<close>: run by the worker \<open>threadId\<close>, it renames
  that thread and then increments the shared counter.
\<close>

definition rename_task :: "build \<Rightarrow> kernel \<Rightarrow> string \<Rightarrow> nat \<Rightarrow> tid \<Rightarrow> names \<times> nat \<Rightarrow> names \<times> nat" where
  "rename_task b k baseName i threadId s =
     (ThreadRename b k threadId (strprintf_s_d baseName i) (fst s), Suc (snd s))"

text \<open>
  The pool (ctpl) and the workers run beside the caller; the caller only sees what its own
  reads return. A \<open>pool\<close> gives every read its value: \<^verbatim>\<open>tp.size()\<close> in
  the test of the submission loop at index \<open>i\<close>; in the test that follows the
  \<open>k\<close>-th sleep of the poll loop, the two loads of \<^verbatim>\<open>doneCnt\<close> (one in
  each comparison) and \<^verbatim>\<open>tp.size()\<close>; and for the future of each task, what
  \<^verbatim>\<open>valid()\<close> and \<^verbatim>\<open>wait_for\<close> return. The future that
  \<^verbatim>\<open>tp.push\<close> returns is identified with the index its task closes over.
\<close>

datatype future_status = ready | timeout | deferred

record pool =
  size_at_submit :: "nat \<Rightarrow> nat"
  doneCnt_1st :: "nat \<Rightarrow> nat"
  doneCnt_2nd :: "nat \<Rightarrow> nat"
  size_at_poll :: "nat \<Rightarrow> nat"
  valid :: "nat \<Rightarrow> bool"
  wait_result :: "nat \<Rightarrow> future_status"

text \<open>What the caller does, in order: the trace of a call.\<close>

datatype arg = Arg_s string | Arg_d nat

datatype event =
    push string nat
  | UninterruptibleSleep nat
  | notify_all
  | wait_for nat nat future_status
  | LogPrintf string "arg list"

text \<open>
  \<^verbatim>\<open>std::map<int, std::future<void>> futures\<close> is a list of pairs in
  ascending key order, the order the final loop visits it in;
  \<^verbatim>\<open>futures[i] = f\<close> is \<open>map_assign\<close>.
\<close>

fun map_assign :: "(nat \<times> 'v) list \<Rightarrow> nat \<Rightarrow> 'v \<Rightarrow> (nat \<times> 'v) list" where
  "map_assign [] i v = [(i, v)]"
| "map_assign ((j, w) # m) i v =
     (if i < j then (i, v) # (j, w) # m
      else if i = j then (i, v) # m
      else (j, w) # map_assign m i v)"

text \<open>
  The submission loop
  \<^verbatim>\<open>for (int i = 0; i < tp.size(); i++) futures[i] = tp.push(...)\<close>.
  The size is read again in every test, so the loop need not end: not returning is
  \<open>None\<close>.
\<close>

partial_function (option) submit_loop ::
  "pool \<Rightarrow> string \<Rightarrow> nat \<Rightarrow> (nat \<times> nat) list \<times> event list \<Rightarrow> ((nat \<times> nat) list \<times> event list) option" where
  "submit_loop tp baseName i s =
     (if i < size_at_submit tp i
      then submit_loop tp baseName (Suc i) (map_assign (fst s) i i, snd s @ [push baseName i])
      else Some s)"

declare submit_loop.simps [code]

text \<open>
  The poll loop
  \<^verbatim>\<open>do { UninterruptibleSleep(10ms); } while (doneCnt < futures.size() && doneCnt < tp.size())\<close>,
  from its \<open>k\<close>-th round on; \<open>n\<close> is \<^verbatim>\<open>futures.size()\<close>. It
  returns the number of sleeps, and \<open>None\<close> when it never leaves.
\<close>

definition poll_again :: "pool \<Rightarrow> nat \<Rightarrow> nat \<Rightarrow> bool" where
  "poll_again tp n k = (doneCnt_1st tp k < n \<and> doneCnt_2nd tp k < size_at_poll tp k)"

partial_function (option) poll_loop :: "pool \<Rightarrow> nat \<Rightarrow> nat \<Rightarrow> nat option" where
  "poll_loop tp n k = (if poll_again tp n k then poll_loop tp n (Suc k) else Some (Suc k))"

declare poll_loop.simps [code]

text \<open>
  The final loop over \<open>futures\<close>, with its \<^verbatim>\<open>break\<close> after the first
  wait that times out. \<^verbatim>\<open>__func__\<close> is \<open>RenameThreadPool\<close>; the
  call of \<^verbatim>\<open>LogPrintf\<close> is recorded with its format and arguments.
\<close>

definition timed_out_format :: string where
  "timed_out_format = ''%s: %s-%d timed out\<newline>''"

fun check_futures :: "pool \<Rightarrow> string \<Rightarrow> (nat \<times> nat) list \<Rightarrow> event list" where
  "check_futures tp baseName [] = []"
| "check_futures tp baseName ((first, f) # rest) =
     (if valid tp f then
        (if wait_result tp f = timeout then
           [wait_for f 2000 timeout,
            LogPrintf timed_out_format [Arg_s ''RenameThreadPool'', Arg_s (c_str baseName), Arg_d first],
            notify_all]
         else wait_for f 2000 (wait_result tp f) # check_futures tp baseName rest)
      else check_futures tp baseName rest)"

definition RenameThreadPool :: "pool \<Rightarrow> string \<Rightarrow> event list option" where
  "RenameThreadPool tp baseName =
     (case submit_loop tp baseName 0 ([], []) of
        None \<Rightarrow> None
      | Some (futures, pushes) \<Rightarrow>
          (case poll_loop tp (length futures) 0 of
             None \<Rightarrow> None
           | Some sleeps \<Rightarrow>
               Some (pushes @ replicate sleeps (UninterruptibleSleep 10) @ [notify_all]
                     @ check_futures tp baseName futures)))"

text \<open>
  The content of \<open>futures\<close> after tasks have been pushed for the indices below
  \<open>n\<close>, and what is read off a trace: the warnings, the waits, and the waits that
  ran into their timeout.
\<close>

definition slots :: "nat \<Rightarrow> (nat \<times> nat) list" where
  "slots n = map (\<lambda>j. (j, j)) [0..<n]"

fun is_warning :: "event \<Rightarrow> bool" where
  "is_warning (LogPrintf fmt args) = True"
| "is_warning e = False"

fun is_wait :: "event \<Rightarrow> bool" where
  "is_wait (wait_for f ms r) = True"
| "is_wait e = False"

fun timed_out :: "event \<Rightarrow> bool" where
  "timed_out (wait_for f ms r) = (r = timeout)"
| "timed_out e = False"

section \<open>Concrete builds, kernels and pools\<close>

text \<open>
  A Linux build, whose \<^verbatim>\<open>prctl\<close> keeps the first 15 bytes of a name (as the
  comments in the source say); the same build without \<^verbatim>\<open>thread_local\<close>; and
  a FreeBSD build, which has a set call and no get call.
\<close>

definition linux :: build where
  "linux = \<lparr>PR_SET_NAME = True, BSD = False, MAC_OSX = False, PR_GET_NAME = True,
            MAC_OSX_trailing = False, HAVE_THREAD_LOCAL = True\<rparr>"

definition linux_no_thread_local :: build where
  "linux_no_thread_local = linux\<lparr>HAVE_THREAD_LOCAL := False\<rparr>"

definition freebsd :: build where
  "freebsd = \<lparr>PR_SET_NAME = False, BSD = True, MAC_OSX = False, PR_GET_NAME = False,
              MAC_OSX_trailing = False, HAVE_THREAD_LOCAL = True\<rparr>"

definition truncating_kernel :: kernel where
  "truncating_kernel =
     \<lparr>prctl_set_name = (\<lambda>old n. take 15 n),
      pthread_set_name_np = (\<lambda>old n. take 15 n),
      pthread_setname_np = (\<lambda>old n. take 15 n),
      prctl_get_name = (\<lambda>n. Some n),
      pthread_getname_np = (\<lambda>n len. Some (take (len - 1) n))\<rparr>"

text \<open>No thread has been named: a \<^verbatim>\<open>thread_local std::string\<close> starts empty.\<close>

definition unnamed :: names where
  "unnamed = \<lparr>os_name = (\<lambda>t. []), g_thread_name = (\<lambda>t. [])\<rparr>"

text \<open>Sixteen bytes of stack that start with \<open>junk\<close> and a terminator.\<close>

definition junk_stack :: string where
  "junk_stack = ''junk'' @ replicate 12 NUL"

text \<open>
  A pool of three workers that keeps its size; the counter reads 1 after the first sleep
  and 3 after the second; every task completes once released.
\<close>

definition steady_pool :: pool where
  "steady_pool =
     \<lparr>size_at_submit = (\<lambda>i. 3),
      doneCnt_1st = (\<lambda>k. if k = 0 then 1 else 3),
      doneCnt_2nd = (\<lambda>k. if k = 0 then 1 else 3),
      size_at_poll = (\<lambda>k. 3),
      valid = (\<lambda>f. True),
      wait_result = (\<lambda>f. ready)\<rparr>"

text \<open>
  A pool of three workers that has shrunk to one when the caller polls; only the task of
  slot 0 ran, the two others never complete.
\<close>

definition shrunk_pool :: pool where
  "shrunk_pool =
     \<lparr>size_at_submit = (\<lambda>i. 3),
      doneCnt_1st = (\<lambda>k. 1),
      doneCnt_2nd = (\<lambda>k. 1),
      size_at_poll = (\<lambda>k. 1),
      valid = (\<lambda>f. True),
      wait_result = (\<lambda>f. if f = 0 then ready else timeout)\<rparr>"

text \<open>
  A pool that reports three workers at entry and one from the second test of the
  submission loop on.
\<close>

definition resized_pool :: pool where
  "resized_pool =
     \<lparr>size_at_submit = (\<lambda>i. if i = 0 then 3 else 1),
      doneCnt_1st = (\<lambda>k. 1),
      doneCnt_2nd = (\<lambda>k. 1),
      size_at_poll = (\<lambda>k. 1),
      valid = (\<lambda>f. True),
      wait_result = (\<lambda>f. ready)\<rparr>"

text \<open>
  A pool of three workers where every task increments the counter, and the task of slot
  1 does not complete within the timeout.
\<close>

definition straggler_pool :: pool where
  "straggler_pool =
     \<lparr>size_at_submit = (\<lambda>i. 3),
      doneCnt_1st = (\<lambda>k. 3),
      doneCnt_2nd = (\<lambda>k. 3),
      size_at_poll = (\<lambda>k. 3),
      valid = (\<lambda>f. True),
      wait_result = (\<lambda>f. if f = 1 then timeout else ready)\<rparr>"

text \<open>
  A pool of two workers that keeps its size, where the task of slot 1 never gets to its
  increment: the counter reads 1 for ever.
\<close>

definition stuck_pool :: pool where
  "stuck_pool =
     \<lparr>size_at_submit = (\<lambda>i. 2),
      doneCnt_1st = (\<lambda>k. 1),
      doneCnt_2nd = (\<lambda>k. 1),
      size_at_poll = (\<lambda>k. 2),
      valid = (\<lambda>f. True),
      wait_result = (\<lambda>f. if f = 1 then timeout else ready)\<rparr>"

section \<open>The internal name\<close>

lemma c_str_id: "NUL \<notin> set name \<Longrightarrow> c_str name = name"
  by (auto simp: c_str_def takeWhile_eq_all_conv)

lemma c_str_terminated: "NUL \<notin> set n \<Longrightarrow> c_str (n @ NUL # rest) = n"
  by (induction n) (auto simp: c_str_def)

lemma g_thread_name_SetThreadName: "g_thread_name (SetThreadName b k t name s) = g_thread_name s"
  by (simp add: SetThreadName_def)

text \<open>
  Claim C1 as stated, for every name and on every build, fails: in a build without
  \<^verbatim>\<open>HAVE_THREAD_LOCAL\<close> the thread that has just been renamed to \<open>net\<close>
  reads back the empty string.
\<close>

theorem ThreadRename_internal_name_counterexample:
  "ThreadGetInternalName linux_no_thread_local 0
     (ThreadRename linux_no_thread_local truncating_kernel 0 ''net'' unnamed) \<noteq> ''net''"
  by (simp add: ThreadGetInternalName_def linux_no_thread_local_def linux_def empty_string_def)

text \<open>
  Claim C1, amended: in a build with \<^verbatim>\<open>HAVE_THREAD_LOCAL\<close>, for every C string
  \<open>name\<close> (bytes without a terminator among them) of any length, after
  \<^verbatim>\<open>ThreadRename(name)\<close> on a thread,
  \<^verbatim>\<open>ThreadGetInternalName()\<close> on that thread returns exactly \<open>name\<close>.
\<close>

theorem ThreadRename_internal_name:
  assumes "HAVE_THREAD_LOCAL b" and "NUL \<notin> set name"
  shows "ThreadGetInternalName b t (ThreadRename b k t name s) = name"
  using assms
  by (simp add: ThreadGetInternalName_def ThreadRename_def SetInternalName_def c_str_id)

text \<open>
  A name of 23 bytes on Linux: the internal name is the whole name, the process-level
  name its first 15 bytes.
\<close>

theorem ThreadRename_internal_name_witness:
  "HAVE_THREAD_LOCAL linux \<and> NUL \<notin> set ''a-very-long-thread-name''
   \<and> ThreadGetInternalName linux 0
       (ThreadRename linux truncating_kernel 0 ''a-very-long-thread-name'' unnamed)
     = ''a-very-long-thread-name''
   \<and> os_name (ThreadRename linux truncating_kernel 0 ''a-very-long-thread-name'' unnamed) 0
     = ''a-very-long-thr''"
proof -
  have tl: "HAVE_THREAD_LOCAL linux"
    by (simp add: linux_def)
  have nul: "NUL \<notin> set ''a-very-long-thread-name''"
    by (simp add: NUL_def)
  have os: "os_name (ThreadRename linux truncating_kernel 0 ''a-very-long-thread-name'' unnamed) 0
     = ''a-very-long-thr''"
    by (simp add: ThreadRename_def SetInternalName_def SetThreadName_def linux_def
        truncating_kernel_def c_str_def NUL_def)
  from tl nul os ThreadRename_internal_name [OF tl nul, of 0 truncating_kernel unnamed]
  show ?thesis by simp
qed

text \<open>
  Claim C8: internal names are thread-local. For two distinct threads \<open>A\<close> and
  \<open>B\<close>, a call of \<^verbatim>\<open>ThreadRename\<close>,
  \<^verbatim>\<open>ThreadSetInternalName\<close> or \<^verbatim>\<open>SetInternalName\<close> by
  \<open>A\<close>, with any name, leaves what \<^verbatim>\<open>ThreadGetInternalName()\<close> returns
  on \<open>B\<close> unchanged, on every build.
\<close>

theorem internal_name_thread_local:
  assumes "A \<noteq> B"
  shows "ThreadGetInternalName b B (ThreadRename b k A name s) = ThreadGetInternalName b B s
       \<and> ThreadGetInternalName b B (ThreadSetInternalName b A name s) = ThreadGetInternalName b B s
       \<and> ThreadGetInternalName b B (SetInternalName b A name s) = ThreadGetInternalName b B s"
  using assms
  by (simp add: ThreadGetInternalName_def ThreadRename_def ThreadSetInternalName_def
      SetInternalName_def g_thread_name_SetThreadName)

text \<open>Thread 1 is named \<open>B\<close>; thread 0 then renames itself to \<open>X\<close>.\<close>

theorem internal_name_thread_local_witness:
  "(0::nat) \<noteq> 1
   \<and> ThreadGetInternalName linux 1 (ThreadRename linux truncating_kernel 1 ''B'' unnamed) = ''B''
   \<and> ThreadGetInternalName linux 1
       (ThreadRename linux truncating_kernel 0 ''X''
         (ThreadRename linux truncating_kernel 1 ''B'' unnamed)) = ''B''"
proof -
  have ne: "(0::nat) \<noteq> 1" by simp
  have B: "ThreadGetInternalName linux 1 (ThreadRename linux truncating_kernel 1 ''B'' unnamed) = ''B''"
    by (simp add: ThreadGetInternalName_def ThreadRename_def SetInternalName_def linux_def
        c_str_def NUL_def)
  from internal_name_thread_local [OF ne, of linux truncating_kernel "''X''"
      "ThreadRename linux truncating_kernel 1 ''B'' unnamed"] B ne
  show ?thesis by simp
qed

text \<open>
  Claim C10: in a build without \<^verbatim>\<open>HAVE_THREAD_LOCAL\<close> the internal name is
  not handled at all. \<^verbatim>\<open>SetInternalName\<close> changes nothing, so
  \<^verbatim>\<open>ThreadRename\<close> does what \<^verbatim>\<open>SetThreadName\<close> alone does, and
  \<^verbatim>\<open>ThreadGetInternalName\<close> returns the empty string in every state, whatever
  calls came before.
\<close>

theorem no_thread_local_internal_name:
  assumes "\<not> HAVE_THREAD_LOCAL b"
  shows "SetInternalName b t name s = s
       \<and> ThreadSetInternalName b t name s = s
       \<and> ThreadRename b k t name s = SetThreadName b k t name s
       \<and> ThreadGetInternalName b t s = []
       \<and> ThreadGetInternalName b t (ThreadSetInternalName b t name s) = []
       \<and> ThreadGetInternalName b t (ThreadRename b k t name s) = []"
  using assms
  by (simp add: ThreadGetInternalName_def ThreadRename_def ThreadSetInternalName_def
      SetInternalName_def empty_string_def)

theorem no_thread_local_internal_name_witness:
  "\<not> HAVE_THREAD_LOCAL linux_no_thread_local
   \<and> SetInternalName linux_no_thread_local 0 ''net'' unnamed = unnamed
   \<and> ThreadGetInternalName linux_no_thread_local 0
       (ThreadRename linux_no_thread_local truncating_kernel 0 ''net'' unnamed) = []"
proof -
  have h: "\<not> HAVE_THREAD_LOCAL linux_no_thread_local"
    by (simp add: linux_no_thread_local_def)
  from no_thread_local_internal_name [OF h, of 0 "''net''" unnamed truncating_kernel] h
  show ?thesis by blast
qed

section \<open>The process-level name\<close>

text \<open>
  Where \<^verbatim>\<open>PR_GET_NAME\<close> is defined and the call succeeds,
  \<^verbatim>\<open>GetThreadName\<close> returns the name the system reports.
\<close>

lemma GetThreadName_reports:
  assumes "PR_GET_NAME b" and "prctl_get_name k (os_name s t) = Some n"
    and "NUL \<notin> set n" and "length n \<le> 15"
  shows "GetThreadName b k stack t s = Inr n"
proof -
  have "c_str (store_name stack n) = n"
    using assms(3,4) by (simp add: store_name_def Let_def c_str_id c_str_terminated)
  moreover have "NUL \<in> set (store_name stack n)"
    by (simp add: store_name_def Let_def)
  ultimately show ?thesis
    using assms(1,2) by (simp add: GetThreadName_def string_of_buffer_def)
qed

text \<open>
  Where neither \<^verbatim>\<open>PR_GET_NAME\<close> nor \<^verbatim>\<open>MAC_OSX_\<close> is defined,
  nothing is stored in the array, and the result is read from the bytes the stack held.
\<close>

lemma GetThreadName_no_get_call:
  assumes "\<not> PR_GET_NAME b" and "\<not> MAC_OSX_trailing b"
  shows "GetThreadName b k stack t s = string_of_buffer stack"
  using assms by (simp add: GetThreadName_def)

text \<open>
  Claim C3 says that \<^verbatim>\<open>GetThreadName\<close> returns the empty string where the
  platform has no get call, or where the call does not succeed. The code returns the
  bytes of the array it never initialised: on a FreeBSD build, and on a Linux build
  whose call fails, a thread renamed to \<open>net\<close> reads back \<open>junk\<close> from a
  stack that held \<open>junk\<close>.
\<close>

theorem GetThreadName_uninitialised:
  "GetThreadName freebsd truncating_kernel junk_stack 0
     (ThreadRename freebsd truncating_kernel 0 ''net'' unnamed) = Inr ''junk''
   \<and> GetThreadName linux (truncating_kernel\<lparr>prctl_get_name := (\<lambda>n. None)\<rparr>) junk_stack 0
     (ThreadRename linux truncating_kernel 0 ''net'' unnamed) = Inr ''junk''"
  by (simp add: GetThreadName_def freebsd_def linux_def junk_stack_def string_of_buffer_def
      c_str_def NUL_def)

section \<open>The submission loop\<close>

lemma map_assign_append: "\<forall>p\<in>set m. fst p < i \<Longrightarrow> map_assign m i v = m @ [(i, v)]"
  by (induction m) auto

lemma slots_Suc: "map_assign (slots n) n n = slots (Suc n)"
  by (simp add: slots_def map_assign_append)

lemma map_snd_slots: "map snd (slots n) = [0..<n]"
  by (simp add: slots_def comp_def)

lemma map_fst_slots: "map fst (slots n) = [0..<n]"
  by (simp add: slots_def comp_def)

lemma length_slots: "length (slots n) = n"
  by (simp add: slots_def)

text \<open>
  While every test succeeds, the loop pushes one task per index and stores its future
  under that index; it ends at the first index that is not below the size read there.
\<close>

lemma submit_loop_run:
  assumes "\<forall>j. i \<le> j \<and> j < n \<longrightarrow> j < size_at_submit tp j" and "i \<le> n"
  shows "submit_loop tp b i (slots i, ps) = submit_loop tp b n (slots n, ps @ map (push b) [i..<n])"
  using assms
proof (induction n)
  case 0
  then show ?case by simp
next
  case (Suc n)
  show ?case
  proof (cases "i = Suc n")
    case True
    then show ?thesis by simp
  next
    case False
    with Suc.prems have le: "i \<le> n" and lt: "n < size_at_submit tp n" by auto
    have "submit_loop tp b i (slots i, ps) = submit_loop tp b n (slots n, ps @ map (push b) [i..<n])"
      using Suc.IH Suc.prems le by simp
    also have "\<dots> = submit_loop tp b (Suc n) (slots (Suc n), (ps @ map (push b) [i..<n]) @ [push b n])"
      using lt by (subst submit_loop.simps) (simp add: slots_Suc)
    finally show ?thesis using le by simp
  qed
qed

lemma submit_loop_stops:
  assumes "\<forall>j<n. j < size_at_submit tp j" and "\<not> n < size_at_submit tp n"
  shows "submit_loop tp b 0 ([], []) = Some (slots n, map (push b) [0..<n])"
proof -
  have "submit_loop tp b 0 (slots 0, []) = submit_loop tp b n (slots n, [] @ map (push b) [0..<n])"
    using assms(1) by (intro submit_loop_run) auto
  also have "\<dots> = Some (slots n, map (push b) [0..<n])"
    using assms(2) by (subst submit_loop.simps) simp
  finally show ?thesis by (simp add: slots_def)
qed

text \<open>Conversely, a submission loop that ends has met such an index.\<close>

lemma submit_loop_SomeD_gen:
  assumes "submit_loop tp b i s = Some r"
  shows "\<exists>n\<ge>i. (\<forall>j. i \<le> j \<and> j < n \<longrightarrow> j < size_at_submit tp j) \<and> \<not> n < size_at_submit tp n"
proof (rule submit_loop.raw_induct[where P = "\<lambda>tp b i s r. \<exists>n\<ge>i. (\<forall>j. i \<le> j \<and> j < n \<longrightarrow> j < size_at_submit tp j) \<and> \<not> n < size_at_submit tp n", OF _ assms])
  fix sl tp b i and s r :: "(nat \<times> nat) list \<times> event list"
  assume IH: "\<And>tp b i s r. sl tp b i s = Some r \<Longrightarrow>
      \<exists>n\<ge>i. (\<forall>j. i \<le> j \<and> j < n \<longrightarrow> j < size_at_submit tp j) \<and> \<not> n < size_at_submit tp n"
    and step: "(if i < size_at_submit tp i
                then sl tp b (Suc i) (map_assign (fst s) i i, snd s @ [push b i])
                else Some s) = Some r"
  show "\<exists>n\<ge>i. (\<forall>j. i \<le> j \<and> j < n \<longrightarrow> j < size_at_submit tp j) \<and> \<not> n < size_at_submit tp n"
  proof (cases "i < size_at_submit tp i")
    case True
    with step have "sl tp b (Suc i) (map_assign (fst s) i i, snd s @ [push b i]) = Some r"
      by simp
    from IH[OF this] obtain n where n: "Suc i \<le> n"
      "\<forall>j. Suc i \<le> j \<and> j < n \<longrightarrow> j < size_at_submit tp j" "\<not> n < size_at_submit tp n"
      by blast
    have "\<forall>j. i \<le> j \<and> j < n \<longrightarrow> j < size_at_submit tp j"
    proof (intro allI impI)
      fix j assume j: "i \<le> j \<and> j < n"
      show "j < size_at_submit tp j"
      proof (cases "j = i")
        case True
        with \<open>i < size_at_submit tp i\<close> show ?thesis by simp
      next
        case False
        with j have "Suc i \<le> j \<and> j < n" by simp
        with n(2) show ?thesis by blast
      qed
    qed
    moreover from n(1) have "i \<le> n" by simp
    ultimately show ?thesis using n(3) by blast
  next
    case False
    then show ?thesis by auto
  qed
qed

lemma submit_loop_SomeD:
  assumes "submit_loop tp b 0 ([], []) = Some (futures, pushes)"
  shows "\<exists>n. futures = slots n \<and> pushes = map (push b) [0..<n]
            \<and> (\<forall>j<n. j < size_at_submit tp j) \<and> \<not> n < size_at_submit tp n"
proof -
  from submit_loop_SomeD_gen[OF assms] obtain n
    where n: "\<forall>j<n. j < size_at_submit tp j" "\<not> n < size_at_submit tp n" by auto
  from submit_loop_stops[OF n, of b] assms show ?thesis
    using n by (intro exI[of _ n]) simp
qed

section \<open>The poll loop\<close>

text \<open>
  The poll loop leaves at the first poll whose test fails, and returns only if there is
  such a poll.
\<close>

lemma poll_loop_exit: "\<not> poll_again tp n k \<Longrightarrow> poll_loop tp n k = Some (Suc k)"
  by (subst poll_loop.simps) simp

lemma poll_loop_skip:
  assumes "\<forall>j. k0 \<le> j \<and> j < k \<longrightarrow> poll_again tp n j" and "k0 \<le> k"
  shows "poll_loop tp n k0 = poll_loop tp n k"
  using assms
proof (induction k)
  case 0
  then show ?case by simp
next
  case (Suc k)
  show ?case
  proof (cases "k0 = Suc k")
    case True
    then show ?thesis by simp
  next
    case False
    with Suc.prems have le: "k0 \<le> k" and again: "poll_again tp n k" by auto
    have "poll_loop tp n k0 = poll_loop tp n k"
      using Suc.IH Suc.prems le by simp
    also have "\<dots> = poll_loop tp n (Suc k)"
      using again by (subst poll_loop.simps) simp
    finally show ?thesis .
  qed
qed

lemma poll_loop_first_exit:
  assumes "\<not> poll_again tp n k" and "\<forall>j<k. poll_again tp n j"
  shows "poll_loop tp n 0 = Some (Suc k)"
proof -
  have "poll_loop tp n 0 = poll_loop tp n k"
    using assms(2) by (intro poll_loop_skip) auto
  with assms(1) show ?thesis by (simp add: poll_loop_exit)
qed

lemma poll_loop_returns:
  assumes "\<not> poll_again tp n k"
  shows "\<exists>j\<le>k. poll_loop tp n 0 = Some (Suc j) \<and> \<not> poll_again tp n j \<and> (\<forall>i<j. poll_again tp n i)"
proof -
  define j where "j = (LEAST j. \<not> poll_again tp n j)"
  have exit: "\<not> poll_again tp n j"
    unfolding j_def using assms by (rule LeastI)
  have le: "j \<le> k"
    unfolding j_def using assms by (rule Least_le)
  have before: "\<forall>i<j. poll_again tp n i"
    unfolding j_def using not_less_Least by blast
  from poll_loop_first_exit[OF exit before] exit le before show ?thesis by blast
qed

lemma poll_loop_SomeD_gen:
  assumes "poll_loop tp n k0 = Some r"
  shows "\<exists>k\<ge>k0. r = Suc k \<and> \<not> poll_again tp n k \<and> (\<forall>j. k0 \<le> j \<and> j < k \<longrightarrow> poll_again tp n j)"
proof (rule poll_loop.raw_induct[where P = "\<lambda>tp n k0 r. \<exists>k\<ge>k0. r = Suc k \<and> \<not> poll_again tp n k \<and> (\<forall>j. k0 \<le> j \<and> j < k \<longrightarrow> poll_again tp n j)", OF _ assms])
  fix pl tp n k0 r
  assume IH: "\<And>tp n k0 r. pl tp n k0 = Some r \<Longrightarrow> \<exists>k\<ge>k0. r = Suc k \<and> \<not> poll_again tp n k \<and> (\<forall>j. k0 \<le> j \<and> j < k \<longrightarrow> poll_again tp n j)"
    and step: "(if poll_again tp n k0 then pl tp n (Suc k0) else Some (Suc k0)) = Some r"
  show "\<exists>k\<ge>k0. r = Suc k \<and> \<not> poll_again tp n k \<and> (\<forall>j. k0 \<le> j \<and> j < k \<longrightarrow> poll_again tp n j)"
  proof (cases "poll_again tp n k0")
    case True
    with step have "pl tp n (Suc k0) = Some r" by simp
    from IH[OF this] obtain k where k: "Suc k0 \<le> k" "r = Suc k" "\<not> poll_again tp n k"
      "\<forall>j. Suc k0 \<le> j \<and> j < k \<longrightarrow> poll_again tp n j"
      by blast
    have "\<forall>j. k0 \<le> j \<and> j < k \<longrightarrow> poll_again tp n j"
    proof (intro allI impI)
      fix j assume j: "k0 \<le> j \<and> j < k"
      show "poll_again tp n j"
      proof (cases "j = k0")
        case True
        with \<open>poll_again tp n k0\<close> show ?thesis by simp
      next
        case False
        with j have "Suc k0 \<le> j \<and> j < k" by simp
        with k(4) show ?thesis by blast
      qed
    qed
    moreover from k(1) have "k0 \<le> k" by simp
    ultimately show ?thesis using k(2,3) by blast
  next
    case False
    with step have "r = Suc k0" by simp
    with False show ?thesis by auto
  qed
qed

lemma poll_loop_SomeD:
  assumes "poll_loop tp n 0 = Some r"
  shows "\<exists>k. r = Suc k \<and> \<not> poll_again tp n k \<and> (\<forall>j<k. poll_again tp n j)"
  using poll_loop_SomeD_gen[OF assms] by auto

lemma poll_loop_None_iff: "poll_loop tp n 0 = None \<longleftrightarrow> (\<forall>k. poll_again tp n k)"
proof
  assume none: "poll_loop tp n 0 = None"
  show "\<forall>k. poll_again tp n k"
  proof (rule ccontr)
    assume "\<not> (\<forall>k. poll_again tp n k)"
    then obtain k where "\<not> poll_again tp n k" by blast
    from poll_loop_returns[OF this] none show False by auto
  qed
next
  assume all: "\<forall>k. poll_again tp n k"
  show "poll_loop tp n 0 = None"
  proof (cases "poll_loop tp n 0")
    case None
    then show ?thesis .
  next
    case (Some r)
    from poll_loop_SomeD[OF Some] all show ?thesis by blast
  qed
qed

lemma not_poll_again: "(\<not> poll_again tp n k) = (n \<le> doneCnt_1st tp k \<or> size_at_poll tp k \<le> doneCnt_2nd tp k)"
  by (auto simp: poll_again_def)

lemma reaches_min_exits:
  assumes "min n (size_at_poll tp k) \<le> doneCnt_1st tp k"
    and "min n (size_at_poll tp k) \<le> doneCnt_2nd tp k"
  shows "\<not> poll_again tp n k"
  using assms by (auto simp: poll_again_def min_def split: if_splits)

section \<open>The final loop and the whole call\<close>

text \<open>The final loop stops at the first valid future whose wait times out.\<close>

lemma check_futures_until_timeout:
  assumes "\<forall>p\<in>set checked. \<not> (valid tp (snd p) \<and> wait_result tp (snd p) = timeout)"
    and "valid tp f" and "wait_result tp f = timeout"
  shows "check_futures tp b (checked @ (first, f) # rest) =
         check_futures tp b checked @
         [wait_for f 2000 timeout,
          LogPrintf timed_out_format [Arg_s ''RenameThreadPool'', Arg_s (c_str b), Arg_d first],
          notify_all]"
  using assms by (induction checked) auto

lemma check_futures_no_timeout:
  assumes "\<forall>p\<in>set checked. \<not> (valid tp (snd p) \<and> wait_result tp (snd p) = timeout)"
  shows "filter is_warning (check_futures tp b checked) = []
       \<and> filter timed_out (check_futures tp b checked) = []"
  using assms by (induction checked) auto

lemma check_futures_warnings: "length (filter is_warning (check_futures tp b fs)) \<le> 1"
  by (induction fs) auto

lemma check_futures_timeouts: "length (filter timed_out (check_futures tp b fs)) \<le> 1"
  by (induction fs) auto

lemma check_futures_waits: "length (filter is_wait (check_futures tp b fs)) \<le> length fs"
  by (induction fs) auto

lemma check_futures_wait_handles:
  "wait_for g ms r \<in> set (check_futures tp b fs) \<Longrightarrow> g \<in> snd ` set fs"
  by (induction fs) (auto split: if_splits)

lemma filter_pushes:
  "filter is_warning (map (push b) xs) = []"
  "filter timed_out (map (push b) xs) = []"
  "filter is_wait (map (push b) xs) = []"
  by (induction xs) auto

lemma filter_sleeps:
  "filter is_warning (replicate n (UninterruptibleSleep ms)) = []"
  "filter timed_out (replicate n (UninterruptibleSleep ms)) = []"
  "filter is_wait (replicate n (UninterruptibleSleep ms)) = []"
  by (induction n) auto

lemma RenameThreadPool_Some:
  assumes "submit_loop tp b 0 ([], []) = Some (futures, pushes)"
    and "poll_loop tp (length futures) 0 = Some sleeps"
  shows "RenameThreadPool tp b =
         Some (pushes @ replicate sleeps (UninterruptibleSleep 10) @ [notify_all]
               @ check_futures tp b futures)"
  using assms by (simp add: RenameThreadPool_def)

lemma RenameThreadPool_None:
  assumes "submit_loop tp b 0 ([], []) = Some (futures, pushes)"
    and "poll_loop tp (length futures) 0 = None"
  shows "RenameThreadPool tp b = None"
  using assms by (simp add: RenameThreadPool_def)

text \<open>
  Within a task the rename comes before the increment: a worker that has run the task up
  to its wait carries the name of its slot, and has counted once.
\<close>

lemma rename_task_renames:
  assumes "HAVE_THREAD_LOCAL b"
  shows "ThreadGetInternalName b w (fst (rename_task b k baseName i w s)) = c_str (strprintf_s_d baseName i)
       \<and> snd (rename_task b k baseName i w s) = Suc (snd s)"
  using assms
  by (simp add: rename_task_def ThreadGetInternalName_def ThreadRename_def SetInternalName_def)

section \<open>What the submission loop submits\<close>

text \<open>
  Claim C6 as stated fails: the size is not snapshotted. A pool that reports three workers
  at entry and one at the second test of the loop gets a single task, for slot 0.
\<close>

theorem submit_loop_snapshot_counterexample:
  "size_at_submit resized_pool 0 = 3
   \<and> submit_loop resized_pool ''w'' 0 ([], []) = Some ([(0, 0)], [push ''w'' 0])
   \<and> RenameThreadPool resized_pool ''w'' =
       Some [push ''w'' 0, UninterruptibleSleep 10, notify_all, wait_for 0 2000 ready]"
proof -
  have sub: "submit_loop resized_pool ''w'' 0 ([], []) = Some ([(0, 0)], [push ''w'' 0])"
    by (simp add: submit_loop.simps resized_pool_def)
  have poll: "poll_loop resized_pool (length [(0::nat, 0::nat)]) 0 = Some 1"
    by (simp add: poll_loop_exit poll_again_def resized_pool_def)
  have "RenameThreadPool resized_pool ''w'' =
       Some [push ''w'' 0, UninterruptibleSleep 10, notify_all, wait_for 0 2000 ready]"
    using RenameThreadPool_Some[OF sub poll] by (simp add: resized_pool_def)
  with sub show ?thesis by (simp add: resized_pool_def)
qed

text \<open>
  Claim C6, amended: \<^verbatim>\<open>tp.size()\<close> is read anew in every test of the
  submission loop. When each of these reads returns the same \<open>N\<close>,
  \<^verbatim>\<open>RenameThreadPool\<close> submits exactly \<open>N\<close> tasks, one per slot
  index \<open>i\<close> in \<open>[0, N)\<close>, each closing over \<open>i\<close> and
  \<open>baseName\<close>, and keeps their futures under the keys \<open>[0, N)\<close>.
\<close>

theorem submit_loop_steady_size:
  assumes "\<forall>i\<le>N. size_at_submit tp i = N"
  shows "\<exists>futures pushes. submit_loop tp baseName 0 ([], []) = Some (futures, pushes)
           \<and> pushes = map (push baseName) [0..<N] \<and> length pushes = N
           \<and> map fst futures = [0..<N] \<and> map snd futures = [0..<N]"
proof -
  have "submit_loop tp baseName 0 ([], []) = Some (slots N, map (push baseName) [0..<N])"
    using assms by (intro submit_loop_stops) auto
  then show ?thesis
    by (simp add: map_fst_slots map_snd_slots)
qed

text \<open>A pool that keeps its three workers.\<close>

theorem submit_loop_steady_size_witness:
  "size_at_submit steady_pool 0 = 3 \<and> size_at_submit steady_pool 3 = 3
   \<and> submit_loop steady_pool ''w'' 0 ([], []) =
       Some ([(0, 0), (1, 1), (2, 2)], [push ''w'' 0, push ''w'' 1, push ''w'' 2])"
proof -
  have h: "\<forall>i\<le>3. size_at_submit steady_pool i = 3"
    by (simp add: steady_pool_def)
  from submit_loop_steady_size[OF h, of "''w''"] obtain futures pushes
    where r: "submit_loop steady_pool ''w'' 0 ([], []) = Some (futures, pushes)"
      and p: "pushes = map (push ''w'') [0..<3]"
      and f: "map fst futures = [0..<3]" "map snd futures = [0..<3]"
    by blast
  have "futures = zip (map fst futures) (map snd futures)"
    by (simp add: zip_map_fst_snd)
  with f have "futures = [(0, 0), (1, 1), (2, 2)]"
    by (simp add: upt_rec)
  moreover from p have "pushes = [push ''w'' 0, push ''w'' 1, push ''w'' 2]"
    by (simp add: upt_rec)
  ultimately show ?thesis using r by (simp add: steady_pool_def)
qed

section \<open>When the poll loop leaves\<close>

lemma submit_shrunk:
  "submit_loop shrunk_pool ''w'' 0 ([], []) = Some (slots 3, map (push ''w'') [0..<3])"
  by (rule submit_loop_stops) (simp_all add: shrunk_pool_def)

text \<open>
  Claim C2: once the submission loop has ended, the poll loop leaves as soon as the
  counter has reached the minimum of \<^verbatim>\<open>futures.size()\<close> and the size the
  pool reports at that poll: at the latest after the sleep of that poll, and exactly
  then when the counter was below both bounds at every earlier poll. So
  \<^verbatim>\<open>RenameThreadPool\<close> returns, also when the pool has shrunk below the
  number of submitted tasks.
\<close>

theorem poll_loop_exits_at_min:
  assumes "submit_loop tp baseName 0 ([], []) = Some (futures, pushes)"
    and "min (length futures) (size_at_poll tp k) \<le> doneCnt_1st tp k"
    and "min (length futures) (size_at_poll tp k) \<le> doneCnt_2nd tp k"
  shows "(\<exists>j\<le>k. poll_loop tp (length futures) 0 = Some (Suc j))
       \<and> ((\<forall>i<k. poll_again tp (length futures) i) \<longrightarrow>
            poll_loop tp (length futures) 0 = Some (Suc k))
       \<and> RenameThreadPool tp baseName \<noteq> None"
proof -
  have exit: "\<not> poll_again tp (length futures) k"
    using assms(2,3) by (rule reaches_min_exits)
  from poll_loop_returns[OF exit] obtain j
    where j: "j \<le> k" "poll_loop tp (length futures) 0 = Some (Suc j)" by blast
  from RenameThreadPool_Some[OF assms(1) j(2)] have "RenameThreadPool tp baseName \<noteq> None"
    by simp
  moreover have "(\<forall>i<k. poll_again tp (length futures) i) \<longrightarrow>
            poll_loop tp (length futures) 0 = Some (Suc k)"
    using poll_loop_first_exit[OF exit] by blast
  ultimately show ?thesis using j by blast
qed

text \<open>
  Three tasks were submitted, the pool has shrunk to one worker, and the counter reads 1.
\<close>

theorem poll_loop_exits_at_min_witness:
  "submit_loop shrunk_pool ''w'' 0 ([], []) = Some (slots 3, map (push ''w'') [0..<3])
   \<and> size_at_poll shrunk_pool 0 < length (slots 3)
   \<and> min (length (slots 3)) (size_at_poll shrunk_pool 0) \<le> doneCnt_1st shrunk_pool 0
   \<and> min (length (slots 3)) (size_at_poll shrunk_pool 0) \<le> doneCnt_2nd shrunk_pool 0
   \<and> poll_loop shrunk_pool (length (slots 3)) 0 = Some 1
   \<and> RenameThreadPool shrunk_pool ''w'' \<noteq> None"
proof -
  have m1: "min (length (slots 3)) (size_at_poll shrunk_pool 0) \<le> doneCnt_1st shrunk_pool 0"
    and m2: "min (length (slots 3)) (size_at_poll shrunk_pool 0) \<le> doneCnt_2nd shrunk_pool 0"
    and sz: "size_at_poll shrunk_pool 0 < length (slots 3)"
    by (simp_all add: shrunk_pool_def length_slots)
  from poll_loop_exits_at_min[OF submit_shrunk m1 m2] submit_shrunk m1 m2 sz
  show ?thesis by simp
qed

text \<open>
  Claim C4 as stated fails: with three tasks submitted and the pool shrunk to one worker,
  the loop leaves after its first sleep although the counter, at 1, is below the number
  of submitted tasks.
\<close>

theorem poll_loop_conjunction_counterexample:
  "submit_loop shrunk_pool ''w'' 0 ([], []) = Some (slots 3, map (push ''w'') [0..<3])
   \<and> poll_loop shrunk_pool (length (slots 3)) 0 = Some 1
   \<and> doneCnt_1st shrunk_pool 0 < length (slots 3)
   \<and> doneCnt_2nd shrunk_pool 0 < length (slots 3)"
proof -
  have "\<not> poll_again shrunk_pool 3 0"
    by (simp add: poll_again_def shrunk_pool_def)
  then have "poll_loop shrunk_pool 3 0 = Some 1"
    by (simp add: poll_loop_exit)
  moreover have "doneCnt_1st shrunk_pool 0 < 3" "doneCnt_2nd shrunk_pool 0 < 3"
    by (simp_all add: shrunk_pool_def)
  ultimately show ?thesis
    by (simp add: submit_shrunk length_slots)
qed

text \<open>
  Claim C4, amended: the poll loop keeps polling while the counter is below the number
  of submitted tasks and below the current pool size; when it leaves, the counter has
  reached the number of submitted tasks or the current pool size (one of the two
  bounds, not both), and at every earlier poll it was below both.
\<close>

theorem poll_loop_exit_condition:
  assumes "poll_loop tp n 0 = Some sleeps"
  shows "\<exists>k. sleeps = Suc k
            \<and> (n \<le> doneCnt_1st tp k \<or> size_at_poll tp k \<le> doneCnt_2nd tp k)
            \<and> (\<forall>j<k. doneCnt_1st tp j < n \<and> doneCnt_2nd tp j < size_at_poll tp j)"
proof -
  from poll_loop_SomeD[OF assms] obtain k
    where k: "sleeps = Suc k" "\<not> poll_again tp n k" "\<forall>j<k. poll_again tp n j" by blast
  from k(2) have "n \<le> doneCnt_1st tp k \<or> size_at_poll tp k \<le> doneCnt_2nd tp k"
    by (simp add: not_poll_again)
  moreover from k(3) have "\<forall>j<k. doneCnt_1st tp j < n \<and> doneCnt_2nd tp j < size_at_poll tp j"
    by (simp add: poll_again_def)
  ultimately show ?thesis using k(1) by blast
qed

text \<open>The counter reads 1 at the first poll and 3 at the second: two sleeps.\<close>

theorem poll_loop_exit_condition_witness:
  "poll_loop steady_pool 3 0 = Some 2
   \<and> (3 \<le> doneCnt_1st steady_pool 1 \<or> size_at_poll steady_pool 1 \<le> doneCnt_2nd steady_pool 1)
   \<and> doneCnt_1st steady_pool 0 < 3 \<and> doneCnt_2nd steady_pool 0 < size_at_poll steady_pool 0"
proof -
  have p: "poll_loop steady_pool 3 0 = Some 2"
    by (simp add: poll_loop.simps poll_again_def steady_pool_def)
  from poll_loop_exit_condition[OF p] obtain k
    where k: "2 = Suc k"
      "3 \<le> doneCnt_1st steady_pool k \<or> size_at_poll steady_pool k \<le> doneCnt_2nd steady_pool k"
      "\<forall>j<k. doneCnt_1st steady_pool j < 3 \<and> doneCnt_2nd steady_pool j < size_at_poll steady_pool j"
    by blast
  from k(1) have k1: "k = 1" by simp
  with k(3) have "doneCnt_1st steady_pool 0 < 3 \<and> doneCnt_2nd steady_pool 0 < size_at_poll steady_pool 0"
    by simp
  with p k(2) k1 show ?thesis by simp
qed

section \<open>Stragglers, and whether the call returns\<close>

lemma submit_straggler:
  "submit_loop straggler_pool ''w'' 0 ([], []) = Some ([(0, 0)] @ (1, 1) # [(2, 2)], map (push ''w'') [0..<3])"
proof -
  have "submit_loop straggler_pool ''w'' 0 ([], []) = Some (slots 3, map (push ''w'') [0..<3])"
    by (rule submit_loop_stops) (simp_all add: straggler_pool_def)
  then show ?thesis by (simp add: slots_def upt_rec)
qed

text \<open>
  Claim C5: when, in the final loop, the future under the key \<open>first\<close> is the
  first one whose wait runs into the timeout, \<^verbatim>\<open>RenameThreadPool\<close> logs
  exactly one warning, with the base name and \<open>first\<close> as its arguments, calls
  \<^verbatim>\<open>notify_all\<close> again, waits for none of the remaining futures, and
  returns.
\<close>

theorem first_timeout_warns_once:
  assumes "submit_loop tp baseName 0 ([], []) = Some (checked @ (first, f) # rest, pushes)"
    and "poll_loop tp (length (checked @ (first, f) # rest)) 0 = Some sleeps"
    and "\<forall>p\<in>set checked. \<not> (valid tp (snd p) \<and> wait_result tp (snd p) = timeout)"
    and "valid tp f" and "wait_result tp f = timeout"
  shows "\<exists>trace. RenameThreadPool tp baseName = Some trace
           \<and> trace = pushes @ replicate sleeps (UninterruptibleSleep 10) @ [notify_all]
                      @ check_futures tp baseName checked
                      @ [wait_for f 2000 timeout,
                         LogPrintf timed_out_format
                           [Arg_s ''RenameThreadPool'', Arg_s (c_str baseName), Arg_d first],
                         notify_all]
           \<and> filter is_warning trace =
               [LogPrintf timed_out_format
                  [Arg_s ''RenameThreadPool'', Arg_s (c_str baseName), Arg_d first]]
           \<and> filter timed_out trace = [wait_for f 2000 timeout]
           \<and> (\<forall>p\<in>set rest. \<forall>ms r. wait_for (snd p) ms r \<notin> set trace)"
proof -
  let ?warning = "LogPrintf timed_out_format
                    [Arg_s ''RenameThreadPool'', Arg_s (c_str baseName), Arg_d first]"
  let ?trace = "pushes @ replicate sleeps (UninterruptibleSleep 10) @ [notify_all]
                @ check_futures tp baseName checked @ [wait_for f 2000 timeout, ?warning, notify_all]"
  from submit_loop_SomeD[OF assms(1)] obtain n
    where n: "checked @ (first, f) # rest = slots n" "pushes = map (push baseName) [0..<n]"
    by blast
  have returns: "RenameThreadPool tp baseName = Some ?trace"
    using RenameThreadPool_Some[OF assms(1,2)]
      check_futures_until_timeout[OF assms(3,4,5), of baseName first rest]
    by simp
  have quiet: "filter is_warning (check_futures tp baseName checked) = []"
    "filter timed_out (check_futures tp baseName checked) = []"
    using check_futures_no_timeout[OF assms(3)] by simp_all
  have warnings: "filter is_warning ?trace = [?warning]"
    by (simp add: n(2) filter_pushes filter_sleeps quiet)
  have timeouts: "filter timed_out ?trace = [wait_for f 2000 timeout]"
    by (simp add: n(2) filter_pushes filter_sleeps quiet)
  have "distinct (map snd (checked @ (first, f) # rest))"
    by (simp only: n(1) map_snd_slots distinct_upt)
  then have apart: "\<forall>p\<in>set rest. snd p \<noteq> f \<and> snd p \<notin> snd ` set checked"
    by auto
  have skipped: "\<forall>p\<in>set rest. \<forall>ms r. wait_for (snd p) ms r \<notin> set ?trace"
  proof (intro ballI allI notI)
    fix p ms r
    assume p: "p \<in> set rest" and w: "wait_for (snd p) ms r \<in> set ?trace"
    from w have "wait_for (snd p) ms r \<in> set (check_futures tp baseName checked) \<or> snd p = f"
      by (auto simp: n(2))
    then have "snd p \<in> snd ` set checked \<or> snd p = f"
      using check_futures_wait_handles by blast
    with apart p show False by blast
  qed
  from returns warnings timeouts skipped show ?thesis by blast
qed

text \<open>Of three tasks, the one of slot 1 does not complete: slot 2 is not waited for.\<close>

theorem first_timeout_warns_once_witness:
  "RenameThreadPool straggler_pool ''w'' =
     Some [push ''w'' 0, push ''w'' 1, push ''w'' 2, UninterruptibleSleep 10, notify_all,
           wait_for 0 2000 ready, wait_for 1 2000 timeout,
           LogPrintf ''%s: %s-%d timed out\<newline>'' [Arg_s ''RenameThreadPool'', Arg_s ''w'', Arg_d 1],
           notify_all]"
proof -
  have poll: "poll_loop straggler_pool (length ([(0::nat, 0::nat)] @ (1, 1) # [(2, 2)])) 0 = Some 1"
    by (simp add: poll_loop_exit poll_again_def straggler_pool_def)
  have ok: "\<forall>p\<in>set [(0::nat, 0::nat)]. \<not> (valid straggler_pool (snd p) \<and> wait_result straggler_pool (snd p) = timeout)"
    by (simp add: straggler_pool_def)
  have v: "valid straggler_pool 1" and t: "wait_result straggler_pool 1 = timeout"
    by (simp_all add: straggler_pool_def)
  from first_timeout_warns_once[OF submit_straggler poll ok v t] obtain trace
    where "RenameThreadPool straggler_pool ''w'' = Some trace"
      and "trace = map (push ''w'') [0..<3] @ replicate 1 (UninterruptibleSleep 10) @ [notify_all]
                      @ check_futures straggler_pool ''w'' [(0, 0)]
                      @ [wait_for 1 2000 timeout,
                         LogPrintf timed_out_format
                           [Arg_s ''RenameThreadPool'', Arg_s (c_str ''w''), Arg_d 1],
                         notify_all]"
    by blast
  then show ?thesis
    by (simp add: upt_rec timed_out_format_def c_str_def NUL_def straggler_pool_def)
qed

text \<open>
  Claim C7 as stated fails: the poll loop has no timeout. With two workers of which one
  never gets to its increment, and a pool that keeps its size, the counter stays at 1
  and \<^verbatim>\<open>RenameThreadPool\<close> never returns.
\<close>

theorem RenameThreadPool_never_returns:
  "RenameThreadPool stuck_pool ''w'' = None"
proof -
  have sub: "submit_loop stuck_pool ''w'' 0 ([], []) = Some (slots 2, map (push ''w'') [0..<2])"
    by (rule submit_loop_stops) (simp_all add: stuck_pool_def)
  have "\<forall>k. poll_again stuck_pool (length (slots 2)) k"
    by (simp add: poll_again_def stuck_pool_def length_slots)
  then have "poll_loop stuck_pool (length (slots 2)) 0 = None"
    by (simp add: poll_loop_None_iff)
  with sub show ?thesis by (rule RenameThreadPool_None)
qed

text \<open>
  Claim C7, amended: once the submission loop has ended,
  \<^verbatim>\<open>RenameThreadPool\<close> returns if and only if some poll sees the counter
  at or above the number of submitted tasks or at or above the current pool size. When
  it returns it has slept 10 ms once for each poll up to the first such poll, and then
  waited for at most one future per submitted task, at most one of these waits running
  into its 2000 ms timeout, with at most one warning logged. A task that increments the
  counter and never completes costs one timeout; a task that never increments it,
  in a pool that keeps its size, keeps the call in the poll loop for ever.
\<close>

theorem RenameThreadPool_returns_iff:
  assumes "submit_loop tp baseName 0 ([], []) = Some (futures, pushes)"
  shows "(RenameThreadPool tp baseName \<noteq> None) =
           (\<exists>k. length futures \<le> doneCnt_1st tp k \<or> size_at_poll tp k \<le> doneCnt_2nd tp k)
       \<and> (\<forall>trace. RenameThreadPool tp baseName = Some trace \<longrightarrow>
            (\<exists>k. (length futures \<le> doneCnt_1st tp k \<or> size_at_poll tp k \<le> doneCnt_2nd tp k)
                \<and> (\<forall>j<k. doneCnt_1st tp j < length futures \<and> doneCnt_2nd tp j < size_at_poll tp j)
                \<and> trace = pushes @ replicate (Suc k) (UninterruptibleSleep 10) @ [notify_all]
                           @ check_futures tp baseName futures)
            \<and> length (filter timed_out trace) \<le> 1
            \<and> length (filter is_warning trace) \<le> 1
            \<and> length (filter is_wait trace) \<le> length futures)"
proof -
  let ?n = "length futures"
  from submit_loop_SomeD[OF assms] obtain n where n: "pushes = map (push baseName) [0..<n]"
    by blast
  have iff: "(RenameThreadPool tp baseName \<noteq> None) =
           (\<exists>k. ?n \<le> doneCnt_1st tp k \<or> size_at_poll tp k \<le> doneCnt_2nd tp k)"
  proof (cases "poll_loop tp ?n 0")
    case None
    then have "\<forall>k. poll_again tp ?n k" by (simp add: poll_loop_None_iff)
    then have "\<not> (\<exists>k. ?n \<le> doneCnt_1st tp k \<or> size_at_poll tp k \<le> doneCnt_2nd tp k)"
      using not_poll_again by blast
    with RenameThreadPool_None[OF assms None] show ?thesis by simp
  next
    case (Some sleeps)
    from poll_loop_SomeD[OF Some] obtain k where "\<not> poll_again tp ?n k" by blast
    then have "\<exists>k. ?n \<le> doneCnt_1st tp k \<or> size_at_poll tp k \<le> doneCnt_2nd tp k"
      using not_poll_again by blast
    with RenameThreadPool_Some[OF assms Some] show ?thesis by simp
  qed
  have after: "\<forall>trace. RenameThreadPool tp baseName = Some trace \<longrightarrow>
            (\<exists>k. (?n \<le> doneCnt_1st tp k \<or> size_at_poll tp k \<le> doneCnt_2nd tp k)
                \<and> (\<forall>j<k. doneCnt_1st tp j < ?n \<and> doneCnt_2nd tp j < size_at_poll tp j)
                \<and> trace = pushes @ replicate (Suc k) (UninterruptibleSleep 10) @ [notify_all]
                           @ check_futures tp baseName futures)
            \<and> length (filter timed_out trace) \<le> 1
            \<and> length (filter is_warning trace) \<le> 1
            \<and> length (filter is_wait trace) \<le> ?n"
  proof (intro allI impI)
    fix trace
    assume ret: "RenameThreadPool tp baseName = Some trace"
    then obtain sleeps where poll: "poll_loop tp ?n 0 = Some sleeps"
      using RenameThreadPool_None[OF assms] by (cases "poll_loop tp ?n 0") auto
    from poll_loop_SomeD[OF poll] obtain k
      where k: "sleeps = Suc k" "\<not> poll_again tp ?n k" "\<forall>j<k. poll_again tp ?n j" by blast
    from RenameThreadPool_Some[OF assms poll] ret k(1)
    have trace: "trace = pushes @ replicate (Suc k) (UninterruptibleSleep 10) @ [notify_all]
                           @ check_futures tp baseName futures"
      by simp
    have exit: "?n \<le> doneCnt_1st tp k \<or> size_at_poll tp k \<le> doneCnt_2nd tp k"
      using k(2) by (simp add: not_poll_again)
    have before: "\<forall>j<k. doneCnt_1st tp j < ?n \<and> doneCnt_2nd tp j < size_at_poll tp j"
      using k(3) by (simp add: poll_again_def)
    have t: "length (filter timed_out trace) \<le> 1"
      unfolding trace using check_futures_timeouts[of tp baseName futures]
      by (simp add: n filter_pushes)
    have w: "length (filter is_warning trace) \<le> 1"
      unfolding trace using check_futures_warnings[of tp baseName futures]
      by (simp add: n filter_pushes)
    have ws: "length (filter is_wait trace) \<le> ?n"
      unfolding trace using check_futures_waits[of tp baseName futures]
      by (simp add: n filter_pushes)
    from exit before trace t w ws
    show "(\<exists>k. (?n \<le> doneCnt_1st tp k \<or> size_at_poll tp k \<le> doneCnt_2nd tp k)
                \<and> (\<forall>j<k. doneCnt_1st tp j < ?n \<and> doneCnt_2nd tp j < size_at_poll tp j)
                \<and> trace = pushes @ replicate (Suc k) (UninterruptibleSleep 10) @ [notify_all]
                           @ check_futures tp baseName futures)
            \<and> length (filter timed_out trace) \<le> 1
            \<and> length (filter is_warning trace) \<le> 1
            \<and> length (filter is_wait trace) \<le> ?n"
      by blast
  qed
  from iff after show ?thesis by blast
qed

text \<open>
  All three tasks increment the counter and the one of slot 1 never completes: the call
  returns.
\<close>

theorem RenameThreadPool_returns_iff_witness:
  "submit_loop straggler_pool ''w'' 0 ([], []) = Some ([(0, 0), (1, 1), (2, 2)], map (push ''w'') [0..<3])
   \<and> length [(0::nat, 0::nat), (1, 1), (2, 2)] \<le> doneCnt_1st straggler_pool 0
   \<and> RenameThreadPool straggler_pool ''w'' \<noteq> None"
proof -
  have sub: "submit_loop straggler_pool ''w'' 0 ([], []) = Some ([(0, 0), (1, 1), (2, 2)], map (push ''w'') [0..<3])"
    using submit_straggler by simp
  have d: "length [(0::nat, 0::nat), (1, 1), (2, 2)] \<le> doneCnt_1st straggler_pool 0"
    by (simp add: straggler_pool_def)
  from RenameThreadPool_returns_iff[OF sub] d
  have "RenameThreadPool straggler_pool ''w'' \<noteq> None" by blast
  with sub d show ?thesis by blast
qed

end
